theory Spec2Isabelle
  imports Complex_Main
begin

section \<open>Section data and the step list (ScrollSections)\<close>

text \<open>
  The scroll controller of the page lives in the component \<^verbatim>\<open>ScrollSections\<close>; the
  horizontal gallery it delegates to is \<^verbatim>\<open>PortfolioHorizontal\<close>. JavaScript numbers
  that carry pixel offsets and wheel deltas are finite doubles, modelled as the reals they
  denote; the wheel accumulator is summed with the rounding of binary64 addition. Step and
  card indices are \<^typ>\<open>int\<close>, section indices (array positions produced by
  \<^verbatim>\<open>forEach\<close>) are \<^typ>\<open>nat\<close>.
\<close>

datatype alignment = AlignLeft | AlignRight | AlignCenter

text \<open>
  The field \<^verbatim>\<open>detail?: ReactElement | string\<close>. A React element is an object, hence
  always truthy; a string is truthy iff it is not empty; an absent field is
  \<^verbatim>\<open>undefined\<close>.
\<close>

datatype detail_value = Str string | Element

record SectionData =
  sec_id :: string
  detail :: "detail_value option"
  isPortfolio :: "bool option"
  align :: alignment

fun truthy_detail :: "detail_value option \<Rightarrow> bool" where
  "truthy_detail None = False"
| "truthy_detail (Some (Str s)) = (s \<noteq> [])"
| "truthy_detail (Some Element) = True"

fun truthy_flag :: "bool option \<Rightarrow> bool" where
  "truthy_flag None = False"
| "truthy_flag (Some b) = b"

text \<open>
  The ten sections of the page, in source order. The heading texts (\<^verbatim>\<open>line1\<close>,
  \<^verbatim>\<open>line2\<close>, \<^verbatim>\<open>subtitle\<close>) and the markup inside each detail card are rendering
  content that the controller never inspects; only the shape of \<^verbatim>\<open>detail\<close> is kept.
\<close>

definition sections :: "SectionData list" where
  "sections =
    [ \<lparr>sec_id = ''hello'', detail = Some (Str ''''), isPortfolio = None, align = AlignCenter\<rparr>,
      \<lparr>sec_id = ''hero'', detail = Some Element, isPortfolio = None, align = AlignLeft\<rparr>,
      \<lparr>sec_id = ''web'', detail = Some Element, isPortfolio = None, align = AlignRight\<rparr>,
      \<lparr>sec_id = ''ai'', detail = Some Element, isPortfolio = None, align = AlignLeft\<rparr>,
      \<lparr>sec_id = ''enterprise'', detail = Some Element, isPortfolio = None, align = AlignRight\<rparr>,
      \<lparr>sec_id = ''design'', detail = Some Element, isPortfolio = None, align = AlignLeft\<rparr>,
      \<lparr>sec_id = ''portfolio'', detail = None, isPortfolio = Some True, align = AlignCenter\<rparr>,
      \<lparr>sec_id = ''process'', detail = Some Element, isPortfolio = None, align = AlignLeft\<rparr>,
      \<lparr>sec_id = ''team'', detail = Some Element, isPortfolio = None, align = AlignRight\<rparr>,
      \<lparr>sec_id = ''contact'', detail = Some Element, isPortfolio = None, align = AlignCenter\<rparr> ]"

datatype sub_step = Title | Detail | Portfolio

record Step =
  sectionIndex :: nat
  subStep :: sub_step

text \<open>
  The body of \<^verbatim>\<open>sections.forEach((s, i) => ...)\<close>: one call pushes the title step of
  section \<open>i\<close> and then at most one more step onto the array built so far.
\<close>

definition pushSteps :: "Step list \<Rightarrow> nat \<times> SectionData \<Rightarrow> Step list" where
  "pushSteps acc p =
     (case p of (i, s) \<Rightarrow>
        (let acc1 = acc @ [\<lparr>sectionIndex = i, subStep = Title\<rparr>] in
         if truthy_flag (isPortfolio s) then acc1 @ [\<lparr>sectionIndex = i, subStep = Portfolio\<rparr>]
         else if truthy_detail (detail s) then acc1 @ [\<lparr>sectionIndex = i, subStep = Detail\<rparr>]
         else acc1))"

definition buildSteps :: "SectionData list \<Rightarrow> Step list" where
  "buildSteps secs = foldl pushSteps [] (enumerate 0 secs)"

definition steps :: "Step list" where
  "steps = buildSteps sections"

text \<open>
  The step model as the specification words it: a section gives its title step, followed
  by exactly one extra step when it is flagged as the gallery or has detail content.
\<close>

definition sectionRun :: "nat \<Rightarrow> SectionData \<Rightarrow> Step list" where
  "sectionRun i s =
     \<lparr>sectionIndex = i, subStep = Title\<rparr> #
     (if truthy_flag (isPortfolio s) \<or> truthy_detail (detail s)
      then [\<lparr>sectionIndex = i,
             subStep = (if truthy_flag (isPortfolio s) then Portfolio else Detail)\<rparr>]
      else [])"

text \<open>JavaScript array indexing: \<^verbatim>\<open>xs[i]\<close> is \<^verbatim>\<open>undefined\<close> outside the array.\<close>

definition elemAt :: "'a list \<Rightarrow> int \<Rightarrow> 'a option" where
  "elemAt xs i = (if 0 \<le> i \<and> i < int (length xs) then Some (xs ! nat i) else None)"

section \<open>Environment, state and effects\<close>

text \<open>
  What the controller reads from the page. \<^verbatim>\<open>sectionEls\<close> is the result of
  \<^verbatim>\<open>containerRef.current?.querySelectorAll('.scroll-section')\<close>: \<open>None\<close> when the
  container is not mounted, otherwise the section elements in document order, each with
  the number of its \<^verbatim>\<open>.char\<close> spans, whether it has a \<^verbatim>\<open>.section-subtitle\<close>, and its
  \<^verbatim>\<open>offsetTop\<close>. \<^verbatim>\<open>track\<close> tells whether \<^verbatim>\<open>trackRef.current\<close> of the gallery is set.
  The remaining fields are the window metrics.
\<close>

record section_el =
  chars :: nat
  subtitle :: bool
  offsetTop :: real

record env =
  sectionEls :: "section_el list option"
  track :: bool
  scrollY :: real
  scrollHeight :: real
  innerHeight :: real
  innerWidth :: real

datatype way = Up | Down

text \<open>
  What a handler does to the outside world, in order: \<^verbatim>\<open>e.preventDefault()\<close>, a call of
  \<^verbatim>\<open>goToStep\<close> made by an input handler (the navigation intent, with the requested
  index), the exit and entrance text animations, the scroll tween to an offset, the
  gallery's slide tween, a value passed to \<^verbatim>\<open>onScrollProgress\<close>, and a \<^verbatim>\<open>TypeError\<close>
  raised by reading a property of \<^verbatim>\<open>undefined\<close> (always the last effect of a run).
\<close>

datatype effect =
    PreventDefault
  | Intent int
  | TextOut nat way
  | TextIn nat bool
  | ScrollTo real
  | SlideTween real
  | ScrollProgress real
  | TypeError

text \<open>
  The refs and React state of \<^verbatim>\<open>ScrollSections\<close>. \<^verbatim>\<open>wheelTimer\<close> records whether a
  debounce timeout is pending.
\<close>

record nav =
  currentStep :: int
  currentStepRef :: int
  isAnimating :: bool
  wheelAccum :: real
  wheelTimer :: bool
  visibleDetails :: "nat set"
  portfolioVisible :: bool
  activeTextSections :: "nat set"

definition initialNav :: nav where
  "initialNav =
     \<lparr>currentStep = 0, currentStepRef = 0, isAnimating = False, wheelAccum = 0,
      wheelTimer = False, visibleDetails = {}, portfolioVisible = False,
      activeTextSections = {}\<rparr>"

fun intents :: "effect list \<Rightarrow> int list" where
  "intents [] = []"
| "intents (Intent i # es) = i # intents es"
| "intents (e # es) = intents es"

section \<open>Progress reporter\<close>

definition progress :: "env \<Rightarrow> real" where
  "progress e =
     (let scrollTop = scrollY e;
          docHeight = scrollHeight e - innerHeight e
      in if docHeight > 0 then scrollTop / docHeight else 0)"

definition syncProgress :: "env \<Rightarrow> effect list" where
  "syncProgress e = [ScrollProgress (progress e)]"

text \<open>
  The quotient is kept exact. The engine rounds it to the nearest double, which moves no
  value across 0 or 1 and leaves 1/2 as it is.
\<close>

text \<open>The formula of the specification, with its clamp to the unit interval.\<close>

definition clampedProgress :: "real \<Rightarrow> real \<Rightarrow> real \<Rightarrow> real" where
  "clampedProgress scrollTop documentHeight viewportHeight =
     (if documentHeight - viewportHeight \<le> 0 then 0
      else max 0 (min 1 (scrollTop / (documentHeight - viewportHeight))))"

section \<open>Text animations\<close>

definition getSectionElements :: "env \<Rightarrow> nat \<Rightarrow> section_el option" where
  "getSectionElements e i =
     (case sectionEls e of
        None \<Rightarrow> None
      | Some els \<Rightarrow> elemAt els (int i))"

text \<open>
  Both animations return at once when the section element is missing or holds no
  characters; otherwise they start their tweens and update \<^verbatim>\<open>activeTextSections\<close>.
  The tween parameters and the hero's idle loops are visual only and are not modelled.
\<close>

definition animateTextIn :: "env \<Rightarrow> nat \<Rightarrow> bool \<Rightarrow> nat set \<Rightarrow> nat set \<times> effect list" where
  "animateTextIn e i isHero active =
     (case getSectionElements e i of
        None \<Rightarrow> (active, [])
      | Some els \<Rightarrow>
          if chars els = 0 then (active, [])
          else (insert i active, [TextIn i isHero]))"

definition animateTextOut :: "env \<Rightarrow> nat \<Rightarrow> way \<Rightarrow> nat set \<Rightarrow> nat set \<times> effect list" where
  "animateTextOut e i w active =
     (case getSectionElements e i of
        None \<Rightarrow> (active, [])
      | Some els \<Rightarrow>
          if chars els = 0 then (active, [])
          else (active - {i}, [TextOut i w]))"

definition animateSectionChange ::
    "env \<Rightarrow> int \<Rightarrow> int \<Rightarrow> nat set \<Rightarrow> nat set \<times> effect list" where
  "animateSectionChange e fromStep toStep active =
     (let from = elemAt steps fromStep;
          to = elemAt steps toStep;
          w = (if toStep > fromStep then Down else Up);
          (active1, es1) =
            (case (from, to) of
               (Some f, Some t) \<Rightarrow>
                 if sectionIndex f \<noteq> sectionIndex t \<and> sectionIndex f \<in> active
                 then animateTextOut e (sectionIndex f) w active
                 else (active, [])
             | _ \<Rightarrow> (active, []))
      in case to of
           None \<Rightarrow> (active1, es1 @ [TypeError])
         | Some t \<Rightarrow>
             if subStep t = Title \<and> sectionIndex t \<notin> active1
             then (case animateTextIn e (sectionIndex t) (sectionIndex t = 0) active1 of
                     (active2, es2) \<Rightarrow> (active2, es1 @ es2))
             else (active1, es1))"

section \<open>The transition orchestrator\<close>

definition clampStep :: "int \<Rightarrow> int" where
  "clampStep stepIndex = max 0 (min stepIndex (int (length steps) - 1))"

text \<open>
  The tail of \<^verbatim>\<open>goToStep\<close>, after the visibility flags are set: fire the section
  animations, then look the arriving section's element up and start the scroll tween.
  Both lookups return early, without a tween, when they find nothing.
\<close>

definition fireAndScroll :: "env \<Rightarrow> int \<Rightarrow> int \<Rightarrow> Step \<Rightarrow> nav \<Rightarrow> nav \<times> effect list" where
  "fireAndScroll e previousStep clamped step s =
     (case animateSectionChange e previousStep clamped (activeTextSections s) of
        (active, es) \<Rightarrow>
          (let s1 = s\<lparr>activeTextSections := active\<rparr> in
           if TypeError \<in> set es then (s1, es)
           else
             (case sectionEls e of
                None \<Rightarrow> (s1, es)
              | Some els \<Rightarrow>
                  (case elemAt els (int (sectionIndex step)) of
                     None \<Rightarrow> (s1, es)
                   | Some targetEl \<Rightarrow> (s1, es @ [ScrollTo (offsetTop targetEl)])))))"

definition goToStep :: "env \<Rightarrow> int \<Rightarrow> nav \<Rightarrow> nav \<times> effect list" where
  "goToStep e stepIndex s =
     (let clamped = clampStep stepIndex in
      if clamped = currentStepRef s then (s, [])
      else if isAnimating s then (s, [])
      else
        (let previousStep = currentStepRef s;
             s1 = s\<lparr>currentStepRef := clamped, currentStep := clamped, isAnimating := True\<rparr>
         in case elemAt steps clamped of
              None \<Rightarrow> (s1, [TypeError])
            | Some step \<Rightarrow>
                (case subStep step of
                   Detail \<Rightarrow>
                     fireAndScroll e previousStep clamped step
                       (s1\<lparr>visibleDetails := insert (sectionIndex step) (visibleDetails s1)\<rparr>)
                 | Title \<Rightarrow>
                     (let s2 = s1\<lparr>visibleDetails := visibleDetails s1 - {sectionIndex step}\<rparr>
                      in case elemAt sections (int (sectionIndex step)) of
                           None \<Rightarrow> (s2, [TypeError])
                         | Some sec \<Rightarrow>
                             fireAndScroll e previousStep clamped step
                               (if truthy_flag (isPortfolio sec)
                                then s2\<lparr>portfolioVisible := False\<rparr> else s2))
                 | Portfolio \<Rightarrow>
                     fireAndScroll e previousStep clamped step
                       (s1\<lparr>portfolioVisible := True\<rparr>))))"

text \<open>The \<^verbatim>\<open>onComplete\<close> callback of the scroll tween started by \<^verbatim>\<open>goToStep\<close>.\<close>

definition onScrollComplete :: "env \<Rightarrow> nav \<Rightarrow> nav \<times> effect list" where
  "onScrollComplete e s = (s\<lparr>isAnimating := False\<rparr>, syncProgress e)"

section \<open>The horizontal gallery (PortfolioHorizontal)\<close>

text \<open>The four project cards; only their number matters to navigation.\<close>

definition projects :: "string list" where
  "projects = [''CiperLux'', ''NexusAI'', ''CloudVault'', ''Strategy Hub'']"

record gallery =
  currentCard :: int
  isMoving :: bool

definition slideTo :: "env \<Rightarrow> int \<Rightarrow> gallery \<Rightarrow> bool \<times> gallery \<times> effect list" where
  "slideTo e index g =
     (if isMoving g then (True, g, [])
      else if index < 0 \<or> index \<ge> int (length projects) then (False, g, [])
      else
        (let g1 = g\<lparr>isMoving := True, currentCard := index\<rparr> in
         if \<not> track e then (False, g1, [])
         else (True, g1, [SlideTween (- real_of_int index * innerWidth e)])))"

definition nav_next :: "env \<Rightarrow> gallery \<Rightarrow> bool \<times> gallery \<times> effect list" where
  "nav_next e g = slideTo e (currentCard g + 1) g"

definition nav_prev :: "env \<Rightarrow> gallery \<Rightarrow> bool \<times> gallery \<times> effect list" where
  "nav_prev e g = slideTo e (currentCard g - 1) g"

text \<open>The \<^verbatim>\<open>onComplete\<close> callback of the slide tween.\<close>

definition onSlideComplete :: "gallery \<Rightarrow> gallery" where
  "onSlideComplete g = g\<lparr>isMoving := False\<rparr>"

section \<open>Binary64 addition\<close>

text \<open>
  \<^verbatim>\<open>wheelAccum.current += e.deltaY\<close> adds two doubles: the exact sum is rounded to the
  nearest double, ties to the even significand. \<open>rne\<close> rounds a real to the nearest
  integer, ties to even; \<open>ulp64 x\<close> is the spacing of the doubles around \<open>x\<close> (53
  significant bits, with the spacing of the subnormals below \<open>2 powr - 1022\<close>). A sum
  beyond the largest double becomes an infinity in the engine; the model keeps the rounded
  real, which has the same sign and passes the same threshold test, and the handler
  resets the accumulator in that very call.
\<close>

definition rne :: "real \<Rightarrow> int" where
  "rne y =
     (let f = \<lfloor>y\<rfloor>; r = y - of_int f
      in if r < 1 / 2 then f
         else if r > 1 / 2 then f + 1
         else if even f then f else f + 1)"

definition ulp64 :: "real \<Rightarrow> real" where
  "ulp64 x = 2 powr (of_int (max \<lfloor>log 2 \<bar>x\<bar>\<rfloor> (- 1022)) - 52)"

definition round64 :: "real \<Rightarrow> real" where
  "round64 x = (if x = 0 then 0 else of_int (rne (x / ulp64 x)) * ulp64 x)"

definition add64 :: "real \<Rightarrow> real \<Rightarrow> real" where
  "add64 a b = round64 (a + b)"

section \<open>Wheel input\<close>

definition THRESHOLD :: real where
  "THRESHOLD = 50"

text \<open>
  A call of \<^verbatim>\<open>goToStep\<close> from an input handler: the intent is recorded, then the
  orchestrator runs.
\<close>

definition emit :: "env \<Rightarrow> int \<Rightarrow> nav \<Rightarrow> nav \<times> effect list" where
  "emit e target s = (case goToStep e target s of (s', es) \<Rightarrow> (s', Intent target # es))"

text \<open>
  The wheel handler. The second component of the state is \<^verbatim>\<open>portfolioNavRef.current\<close>:
  \<open>None\<close> while the gallery has not registered its \<^verbatim>\<open>next\<close>/\<^verbatim>\<open>prev\<close> pair, otherwise
  the gallery whose refs that pair closes over.
\<close>

definition onWheel ::
    "env \<Rightarrow> real \<Rightarrow> nav \<times> gallery option \<Rightarrow> (nav \<times> gallery option) \<times> effect list" where
  "onWheel e deltaY sn =
     (case sn of (s, navRef) \<Rightarrow>
       (case elemAt steps (currentStepRef s) of
          None \<Rightarrow> ((s, navRef), [PreventDefault, TypeError])
        | Some step \<Rightarrow>
            if subStep step = Portfolio then
              (if isAnimating s then ((s, navRef), [PreventDefault])
               else
                 (let s1 = s\<lparr>wheelAccum := add64 (wheelAccum s) deltaY, wheelTimer := True\<rparr> in
                  if \<bar>wheelAccum s1\<bar> \<ge> THRESHOLD then
                    (let direction = (if wheelAccum s1 > 0 then 1 else - 1 :: int);
                         s2 = s1\<lparr>wheelAccum := 0\<rparr>
                     in case navRef of
                          Some g \<Rightarrow>
                            if direction > 0 then
                              (case nav_next e g of
                                 (handled, g', ges) \<Rightarrow>
                                   if \<not> handled then
                                     (case emit e (currentStepRef s2 + 1) s2 of
                                        (s3, es) \<Rightarrow> ((s3, Some g'), PreventDefault # ges @ es))
                                   else ((s2, Some g'), PreventDefault # ges))
                            else
                              (case nav_prev e g of
                                 (handled, g', ges) \<Rightarrow>
                                   if \<not> handled then
                                     (case emit e (currentStepRef s2 - 1) s2 of
                                        (s3, es) \<Rightarrow> ((s3, Some g'), PreventDefault # ges @ es))
                                   else ((s2, Some g'), PreventDefault # ges))
                        | None \<Rightarrow>
                            (case emit e (currentStepRef s2 + direction) s2 of
                               (s3, es) \<Rightarrow> ((s3, None), PreventDefault # es)))
                  else ((s1, navRef), [PreventDefault])))
            else
              (if isAnimating s then ((s, navRef), [PreventDefault])
               else
                 (let s1 = s\<lparr>wheelAccum := add64 (wheelAccum s) deltaY, wheelTimer := True\<rparr> in
                  if \<bar>wheelAccum s1\<bar> \<ge> THRESHOLD then
                    (let direction = (if wheelAccum s1 > 0 then 1 else - 1 :: int);
                         s2 = s1\<lparr>wheelAccum := 0\<rparr>
                     in case emit e (currentStepRef s2 + direction) s2 of
                          (s3, es) \<Rightarrow> ((s3, navRef), PreventDefault # es))
                  else ((s1, navRef), [PreventDefault])))))"


text \<open>
  A burst of wheel events with no timeout and no tween completion in between: the
  handler runs on each delta in turn and the effects are concatenated.
\<close>

fun wheelBurst ::
    "env \<Rightarrow> real list \<Rightarrow> nav \<times> gallery option \<Rightarrow> (nav \<times> gallery option) \<times> effect list" where
  "wheelBurst e [] sn = (sn, [])"
| "wheelBurst e (d # ds) sn =
     (case onWheel e d sn of
        (sn1, es1) \<Rightarrow> (case wheelBurst e ds sn1 of (sn2, es2) \<Rightarrow> (sn2, es1 @ es2)))"


section \<open>Example inputs\<close>

text \<open>
  A mounted page used in the examples: ten section elements, each one viewport (1000 px)
  high with nine title characters and a subtitle, in a window 1600 px wide; then the same
  page with its container reference unset.
\<close>

definition examplePage :: env where
  "examplePage =
     \<lparr>sectionEls =
        Some (map (\<lambda>y. \<lparr>chars = 9, subtitle = True, offsetTop = y\<rparr>)
               [0, 1000, 2000, 3000, 4000, 5000, 6000, 7000, 8000, 9000]),
      track = True, scrollY = 0, scrollHeight = 10000, innerHeight = 1000,
      innerWidth = 1600\<rparr>"


text \<open>
  The doubles written \<^verbatim>\<open>0.8\<close> and \<^verbatim>\<open>0.9\<close> in JavaScript, as the rationals they
  denote, and a burst of wheel deltas \<^verbatim>\<open>47.5, 0.8, 0.8, 0.9\<close>.
\<close>

definition d08 :: real where
  "d08 = 3602879701896397 / 2 ^ 52"

definition d09 :: real where
  "d09 = 8106479329266893 / 2 ^ 53"

definition slowBurst :: "real list" where
  "slowBurst = [95 / 2, d08, d08, d09]"

text \<open>The doubles written \<^verbatim>\<open>21.4\<close>, \<^verbatim>\<open>10.2\<close> and \<^verbatim>\<open>18.4\<close>.\<close>

definition d214 :: real where
  "d214 = 3011782250804019 / 2 ^ 47"

definition d102 :: real where
  "d102 = 2871044762448691 / 2 ^ 48"

definition d184 :: real where
  "d184 = 2589569785738035 / 2 ^ 47"

text \<open>A transition that runs to its end: \<^verbatim>\<open>goToStep\<close>, then the scroll tween completes.\<close>

definition stepTo :: "env \<Rightarrow> int \<Rightarrow> nav \<Rightarrow> nav" where
  "stepTo e target s = fst (onScrollComplete e (fst (goToStep e target s)))"

section \<open>The step model\<close>

lemma pushSteps_run: "pushSteps acc (i, s) = acc @ sectionRun i s"
  by (simp add: pushSteps_def sectionRun_def Let_def)

lemma foldl_pushSteps:
  "foldl pushSteps acc ps = acc @ concat (map (\<lambda>(i, s). sectionRun i s) ps)"
proof (induction ps arbitrary: acc)
  case Nil
  show ?case by simp
next
  case (Cons p ps)
  obtain i s where p: "p = (i, s)" by (cases p)
  show ?case by (simp add: Cons.IH p pushSteps_run)
qed

lemma buildSteps_concat:
  "buildSteps secs = concat (map (\<lambda>(i, s). sectionRun i s) (enumerate 0 secs))"
  by (simp add: buildSteps_def foldl_pushSteps)

section \<open>The step list of the page\<close>

lemma steps_eq:
  "steps =
    [ \<lparr>sectionIndex = 0, subStep = Title\<rparr>,
      \<lparr>sectionIndex = 1, subStep = Title\<rparr>, \<lparr>sectionIndex = 1, subStep = Detail\<rparr>,
      \<lparr>sectionIndex = 2, subStep = Title\<rparr>, \<lparr>sectionIndex = 2, subStep = Detail\<rparr>,
      \<lparr>sectionIndex = 3, subStep = Title\<rparr>, \<lparr>sectionIndex = 3, subStep = Detail\<rparr>,
      \<lparr>sectionIndex = 4, subStep = Title\<rparr>, \<lparr>sectionIndex = 4, subStep = Detail\<rparr>,
      \<lparr>sectionIndex = 5, subStep = Title\<rparr>, \<lparr>sectionIndex = 5, subStep = Detail\<rparr>,
      \<lparr>sectionIndex = 6, subStep = Title\<rparr>, \<lparr>sectionIndex = 6, subStep = Portfolio\<rparr>,
      \<lparr>sectionIndex = 7, subStep = Title\<rparr>, \<lparr>sectionIndex = 7, subStep = Detail\<rparr>,
      \<lparr>sectionIndex = 8, subStep = Title\<rparr>, \<lparr>sectionIndex = 8, subStep = Detail\<rparr>,
      \<lparr>sectionIndex = 9, subStep = Title\<rparr>, \<lparr>sectionIndex = 9, subStep = Detail\<rparr> ]"
  by (simp add: steps_def buildSteps_def sections_def pushSteps_def)

lemma length_steps: "length steps = 19"
  by (simp add: steps_eq)

lemma run_bounds:
  "x \<in> set (concat (map (\<lambda>(i, s). sectionRun i s) (enumerate n secs)))
   \<Longrightarrow> n \<le> sectionIndex x \<and> sectionIndex x < n + length secs"
proof (induction secs arbitrary: n)
  case Nil
  then show ?case by simp
next
  case (Cons s secs)
  from Cons.prems have "x \<in> set (sectionRun n s)
      \<or> x \<in> set (concat (map (\<lambda>(i, s). sectionRun i s) (enumerate (Suc n) secs)))"
    by simp
  then show ?case
  proof
    assume "x \<in> set (sectionRun n s)"
    then show ?thesis by (auto simp: sectionRun_def split: if_splits)
  next
    assume "x \<in> set (concat (map (\<lambda>(i, s). sectionRun i s) (enumerate (Suc n) secs)))"
    from Cons.IH [OF this] show ?thesis by simp
  qed
qed

lemma run_sorted:
  "sorted (map sectionIndex (concat (map (\<lambda>(i, s). sectionRun i s) (enumerate n secs))))"
proof (induction secs arbitrary: n)
  case Nil
  show ?case by simp
next
  case (Cons s secs)
  have own: "sorted (map sectionIndex (sectionRun n s))"
    and idx: "\<forall>x \<in> set (sectionRun n s). sectionIndex x = n"
    by (simp_all add: sectionRun_def)
  have later: "\<forall>y \<in> set (concat (map (\<lambda>(i, s). sectionRun i s) (enumerate (Suc n) secs))).
      n \<le> sectionIndex y"
  proof
    fix y
    assume "y \<in> set (concat (map (\<lambda>(i, s). sectionRun i s) (enumerate (Suc n) secs)))"
    from run_bounds [OF this] show "n \<le> sectionIndex y" by simp
  qed
  show ?case
    using own idx later Cons.IH [of "Suc n"] by (auto simp: sorted_append)
qed

lemma run_filter:
  "filter (\<lambda>st. sectionIndex st = i)
     (concat (map (\<lambda>(i, s). sectionRun i s) (enumerate n secs)))
   = (if n \<le> i \<and> i < n + length secs then sectionRun i (secs ! (i - n)) else [])"
proof (induction secs arbitrary: n)
  case Nil
  show ?case by auto
next
  case (Cons s secs)
  have own: "filter (\<lambda>st. sectionIndex st = i) (sectionRun n s)
      = (if i = n then sectionRun n s else [])"
    by (simp add: sectionRun_def)
  show ?case
    by (auto simp: own Cons.IH [of "Suc n"] nth_Cons' Suc_diff_le)
qed

text \<open>
  Claim C4. For every section list, the step-building loop gives each section its title
  step followed by exactly one extra step when the section is flagged as the gallery or
  has (truthy) detail content, in section order: the section indices of the steps never
  decrease, the steps of section \<open>i\<close> are exactly its run of one or two steps, every
  step points at an existing section, and no sections give no steps.
\<close>

theorem buildSteps_generation:
  "buildSteps secs = concat (map (\<lambda>(i, s). sectionRun i s) (enumerate 0 secs))
   \<and> sorted (map sectionIndex (buildSteps secs))
   \<and> (\<forall>i < length secs.
        filter (\<lambda>st. sectionIndex st = i) (buildSteps secs) = sectionRun i (secs ! i)
        \<and> (length (sectionRun i (secs ! i)) = 1 \<or> length (sectionRun i (secs ! i)) = 2)
        \<and> (length (sectionRun i (secs ! i)) = 2
             \<longleftrightarrow> truthy_flag (isPortfolio (secs ! i)) \<or> truthy_detail (detail (secs ! i))))
   \<and> (\<forall>st \<in> set (buildSteps secs). sectionIndex st < length secs)
   \<and> buildSteps [] = []"
proof -
  have a: "buildSteps secs = concat (map (\<lambda>(i, s). sectionRun i s) (enumerate 0 secs))"
    by (rule buildSteps_concat)
  have b: "sorted (map sectionIndex (buildSteps secs))"
    unfolding a by (rule run_sorted)
  have c: "filter (\<lambda>st. sectionIndex st = i) (buildSteps secs) = sectionRun i (secs ! i)"
    if "i < length secs" for i
    unfolding a using that by (simp add: run_filter)
  have d: "(length (sectionRun i s) = 1 \<or> length (sectionRun i s) = 2)
      \<and> (length (sectionRun i s) = 2 \<longleftrightarrow> truthy_flag (isPortfolio s) \<or> truthy_detail (detail s))"
    for i s
    by (simp add: sectionRun_def)
  have e: "sectionIndex st < length secs" if "st \<in> set (buildSteps secs)" for st
    using run_bounds [of st 0 secs] that unfolding a by simp
  have f: "buildSteps [] = []"
    by (simp add: buildSteps_def)
  from a b c d e f show ?thesis by blast
qed

theorem buildSteps_generation_witness:
  "buildSteps (take 2 sections) =
     [\<lparr>sectionIndex = 0, subStep = Title\<rparr>, \<lparr>sectionIndex = 1, subStep = Title\<rparr>,
      \<lparr>sectionIndex = 1, subStep = Detail\<rparr>]
   \<and> filter (\<lambda>st. sectionIndex st = 1) (buildSteps (take 2 sections))
       = sectionRun 1 (take 2 sections ! 1)
   \<and> length (sectionRun 1 (take 2 sections ! 1)) = 2"
  using buildSteps_generation [of "take 2 sections"]
  by (simp add: sections_def sectionRun_def)

text \<open>
  Claim C9. A detail step is pushed only for a truthy detail: a section whose detail is
  the empty string, and which is not the gallery, gives its title step alone. The first
  of the ten sections of the page is such a section, and the step list of the page has
  19 entries: 10 title steps, 8 detail steps and 1 gallery step.
\<close>

theorem empty_detail_no_step:
  "(\<not> truthy_flag (isPortfolio s) \<and> detail s = Some (Str '''')
      \<longrightarrow> buildSteps [s] = [\<lparr>sectionIndex = 0, subStep = Title\<rparr>])
   \<and> detail (sections ! 0) = Some (Str '''')
   \<and> length steps = 19
   \<and> length (filter (\<lambda>st. subStep st = Title) steps) = 10
   \<and> length (filter (\<lambda>st. subStep st = Detail) steps) = 8
   \<and> length (filter (\<lambda>st. subStep st = Portfolio) steps) = 1"
  by (simp add: buildSteps_def pushSteps_def steps_eq) (simp add: sections_def)

theorem empty_detail_no_step_witness:
  "\<not> truthy_flag (isPortfolio (sections ! 0)) \<and> detail (sections ! 0) = Some (Str '''')
   \<and> buildSteps [sections ! 0] = [\<lparr>sectionIndex = 0, subStep = Title\<rparr>]"
  using empty_detail_no_step [of "sections ! 0"] by (simp add: sections_def)

section \<open>Transitions: commit, lock and visibility flags\<close>

lemma clampStep_range: "0 \<le> clampStep t \<and> clampStep t < 19"
  by (simp add: clampStep_def length_steps)

lemma clampStep_id: "0 \<le> t \<Longrightarrow> t \<le> 18 \<Longrightarrow> clampStep t = t"
  by (simp add: clampStep_def length_steps)

lemma elemAt_clampStep: "elemAt steps (clampStep t) = Some (steps ! nat (clampStep t))"
  using clampStep_range [of t] by (simp add: elemAt_def length_steps)

lemma steps_sectionIndex: "st \<in> set steps \<Longrightarrow> sectionIndex st < length sections"
  using run_bounds [of st 0 sections] by (simp add: steps_def buildSteps_concat)

lemma elemAt_sections:
  "elemAt sections (int (sectionIndex (steps ! nat (clampStep t))))
     = Some (sections ! sectionIndex (steps ! nat (clampStep t)))"
proof -
  have "nat (clampStep t) < length steps"
    using clampStep_range [of t] unfolding length_steps by linarith
  then have "steps ! nat (clampStep t) \<in> set steps" by simp
  then show ?thesis by (simp add: elemAt_def steps_sectionIndex)
qed

lemma animateSectionChange_no_throw:
  "elemAt steps c = Some st \<Longrightarrow> TypeError \<notin> set (snd (animateSectionChange e p c A))"
  by (auto simp: animateSectionChange_def animateTextOut_def animateTextIn_def Let_def
      split: option.splits prod.splits if_splits)

lemma fst_fireAndScroll:
  "fst (fireAndScroll e p c st s)
     = s\<lparr>activeTextSections := fst (animateSectionChange e p c (activeTextSections s))\<rparr>"
  by (simp add: fireAndScroll_def Let_def split: prod.splits option.splits)

lemma goToStep_locked: "isAnimating s \<Longrightarrow> goToStep e t s = (s, [])"
  by (simp add: goToStep_def Let_def)

lemma goToStep_same: "clampStep t = currentStepRef s \<Longrightarrow> goToStep e t s = (s, [])"
  by (simp add: goToStep_def Let_def)

lemma goToStep_commit:
  assumes "\<not> isAnimating s" and "clampStep t \<noteq> currentStepRef s"
  shows "currentStepRef (fst (goToStep e t s)) = clampStep t"
    and "currentStep (fst (goToStep e t s)) = clampStep t"
    and "isAnimating (fst (goToStep e t s))"
    and "wheelAccum (fst (goToStep e t s)) = wheelAccum s"
    and "wheelTimer (fst (goToStep e t s)) = wheelTimer s"
  using assms
  by (simp_all add: goToStep_def Let_def elemAt_clampStep elemAt_sections fst_fireAndScroll
      split: sub_step.splits)

lemma goToStep_flags:
  assumes "\<not> isAnimating s" and "clampStep t \<noteq> currentStepRef s"
  shows "visibleDetails (fst (goToStep e t s)) =
           (case subStep (steps ! nat (clampStep t)) of
              Title \<Rightarrow> visibleDetails s - {sectionIndex (steps ! nat (clampStep t))}
            | Detail \<Rightarrow> insert (sectionIndex (steps ! nat (clampStep t))) (visibleDetails s)
            | Portfolio \<Rightarrow> visibleDetails s)"
    and "portfolioVisible (fst (goToStep e t s)) =
           (case subStep (steps ! nat (clampStep t)) of
              Title \<Rightarrow> portfolioVisible s \<and>
                \<not> truthy_flag (isPortfolio (sections ! sectionIndex (steps ! nat (clampStep t))))
            | Detail \<Rightarrow> portfolioVisible s
            | Portfolio \<Rightarrow> True)"
  using assms
  by (simp_all add: goToStep_def Let_def elemAt_clampStep elemAt_sections fst_fireAndScroll
      split: sub_step.splits)

lemma stepTo_fields:
  assumes "\<not> isAnimating s" and "clampStep t \<noteq> currentStepRef s"
  shows "currentStepRef (stepTo e t s) = clampStep t"
    and "\<not> isAnimating (stepTo e t s)"
    and "visibleDetails (stepTo e t s) = visibleDetails (fst (goToStep e t s))"
  using goToStep_commit(1) [OF assms, of e]
  by (simp_all add: stepTo_def onScrollComplete_def)

text \<open>
  Claim C1. Mutual exclusion of transitions: when a first call of goToStep commits (the
  lock is free and the clamped target differs from the current step), it leaves the lock
  set, and a second call made before the scroll tween completes, with any target and on
  any page, is rejected: it returns the state unchanged (current step, visible details
  and gallery flag included) and fires no animation and no scroll command. So the two
  calls commit exactly one transition.
\<close>

theorem goToStep_mutual_exclusion:
  assumes "\<not> isAnimating s" and "clampStep t1 \<noteq> currentStepRef s"
  shows "currentStepRef (fst (goToStep e1 t1 s)) = clampStep t1
       \<and> isAnimating (fst (goToStep e1 t1 s))
       \<and> goToStep e2 t2 (fst (goToStep e1 t1 s)) = (fst (goToStep e1 t1 s), [])"
proof -
  have committed: "currentStepRef (fst (goToStep e1 t1 s)) = clampStep t1"
    and locked: "isAnimating (fst (goToStep e1 t1 s))"
    using assms by (rule goToStep_commit)+
  from locked have "goToStep e2 t2 (fst (goToStep e1 t1 s)) = (fst (goToStep e1 t1 s), [])"
    by (rule goToStep_locked)
  with committed locked show ?thesis by simp
qed

theorem goToStep_mutual_exclusion_witness:
  "\<not> isAnimating initialNav \<and> clampStep 1 \<noteq> currentStepRef initialNav
   \<and> currentStepRef (fst (goToStep examplePage 1 initialNav)) = 1
   \<and> isAnimating (fst (goToStep examplePage 1 initialNav))
   \<and> goToStep examplePage 2 (fst (goToStep examplePage 1 initialNav))
       = (fst (goToStep examplePage 1 initialNav), [])"
  using goToStep_mutual_exclusion [of initialNav 1 examplePage examplePage 2]
  by (simp add: initialNav_def clampStep_id)

text \<open>
  Claim C8. Idempotence on the current step: a call of goToStep whose target clamps to
  the current step index changes nothing in the state and fires no text animation and no
  scroll command (whether or not the lock is held).
\<close>

theorem goToStep_idempotent:
  "clampStep target = currentStepRef s \<Longrightarrow> goToStep e target s = (s, [])"
  by (simp add: goToStep_def Let_def)

theorem goToStep_idempotent_witness:
  "clampStep 25 = currentStepRef (initialNav\<lparr>currentStepRef := 18, currentStep := 18\<rparr>)
   \<and> goToStep examplePage 25 (initialNav\<lparr>currentStepRef := 18, currentStep := 18\<rparr>)
       = (initialNav\<lparr>currentStepRef := 18, currentStep := 18\<rparr>, [])"
  using goToStep_idempotent [of 25 "initialNav\<lparr>currentStepRef := 18, currentStep := 18\<rparr>" examplePage]
  by (simp add: clampStep_def length_steps)

lemma steps_nth_examples:
  "steps ! nat (clampStep 1) = \<lparr>sectionIndex = 1, subStep = Title\<rparr>"
  "steps ! nat (clampStep 2) = \<lparr>sectionIndex = 1, subStep = Detail\<rparr>"
  "steps ! nat (clampStep 3) = \<lparr>sectionIndex = 2, subStep = Title\<rparr>"
  "steps ! nat (clampStep 4) = \<lparr>sectionIndex = 2, subStep = Detail\<rparr>"
  by (simp_all add: clampStep_id steps_eq)

lemma two_details_visible:
  "visibleDetails (stepTo examplePage 4 (stepTo examplePage 3 (stepTo examplePage 2
      (stepTo examplePage 1 initialNav)))) = {1, 2}"
proof -
  let ?s1 = "stepTo examplePage 1 initialNav"
  let ?s2 = "stepTo examplePage 2 ?s1"
  let ?s3 = "stepTo examplePage 3 ?s2"
  let ?s4 = "stepTo examplePage 4 ?s3"
  have i0: "\<not> isAnimating initialNav" "clampStep 1 \<noteq> currentStepRef initialNav"
    by (simp_all add: initialNav_def clampStep_id)
  have v1: "visibleDetails ?s1 = {}"
    unfolding stepTo_fields(3) [OF i0] goToStep_flags(1) [OF i0]
    by (simp add: steps_nth_examples initialNav_def)
  have i1: "\<not> isAnimating ?s1" "clampStep 2 \<noteq> currentStepRef ?s1"
    by (simp_all add: stepTo_fields [OF i0] clampStep_id)
  have v2: "visibleDetails ?s2 = {1}"
    by (simp add: stepTo_fields(3) [OF i1] goToStep_flags(1) [OF i1]
        steps_nth_examples v1)
  have i2: "\<not> isAnimating ?s2" "clampStep 3 \<noteq> currentStepRef ?s2"
    by (simp_all add: stepTo_fields [OF i1] clampStep_id)
  have v3: "visibleDetails ?s3 = {1}"
    by (simp add: stepTo_fields(3) [OF i2] goToStep_flags(1) [OF i2]
        steps_nth_examples v2)
  have i3: "\<not> isAnimating ?s3" "clampStep 4 \<noteq> currentStepRef ?s3"
    by (simp_all add: stepTo_fields [OF i2] clampStep_id)
  show "visibleDetails ?s4 = {1, 2}"
    by (auto simp add: stepTo_fields(3) [OF i3] goToStep_flags(1) [OF i3]
        steps_nth_examples v3)
qed

text \<open>
  Claim C10. A committed goToStep changes the visibility flags for the arriving step's
  section only: arriving at a title step removes that section's index from
  visibleDetails and clears the gallery flag only when that section is the gallery
  section, arriving at a detail step adds that section's index, arriving at the gallery
  step sets the gallery flag; membership of every other section index is left as it was.
  Hence walking from the detail step of section 1 on to section 2 and its detail step
  leaves both 1 and 2 in visibleDetails.
\<close>

theorem goToStep_visibility_frame:
  assumes "\<not> isAnimating s" and "clampStep t \<noteq> currentStepRef s"
    and "step = steps ! nat (clampStep t)" and "s' = fst (goToStep e t s)"
  shows "(subStep step = Title \<longrightarrow>
            visibleDetails s' = visibleDetails s - {sectionIndex step}
            \<and> portfolioVisible s' =
                (portfolioVisible s \<and> \<not> truthy_flag (isPortfolio (sections ! sectionIndex step))))
       \<and> (subStep step = Detail \<longrightarrow>
            visibleDetails s' = insert (sectionIndex step) (visibleDetails s)
            \<and> portfolioVisible s' = portfolioVisible s)
       \<and> (subStep step = Portfolio \<longrightarrow>
            visibleDetails s' = visibleDetails s \<and> portfolioVisible s')
       \<and> (\<forall>j. j \<noteq> sectionIndex step \<longrightarrow> (j \<in> visibleDetails s' \<longleftrightarrow> j \<in> visibleDetails s))
       \<and> visibleDetails (stepTo examplePage 4 (stepTo examplePage 3 (stepTo examplePage 2
            (stepTo examplePage 1 initialNav)))) = {1, 2}"
  using goToStep_flags [OF assms(1,2), of e] assms(3,4) two_details_visible
  by (cases "subStep step") auto

theorem goToStep_visibility_frame_witness:
  "\<not> isAnimating (stepTo examplePage 2 (stepTo examplePage 1 initialNav))
   \<and> clampStep 3 \<noteq> currentStepRef (stepTo examplePage 2 (stepTo examplePage 1 initialNav))
   \<and> steps ! nat (clampStep 3) = \<lparr>sectionIndex = 2, subStep = Title\<rparr>
   \<and> visibleDetails (stepTo examplePage 2 (stepTo examplePage 1 initialNav)) = {1}
   \<and> visibleDetails
        (fst (goToStep examplePage 3 (stepTo examplePage 2 (stepTo examplePage 1 initialNav))))
       = {1}"
proof -
  let ?s1 = "stepTo examplePage 1 initialNav"
  let ?s2 = "stepTo examplePage 2 ?s1"
  have i0: "\<not> isAnimating initialNav" "clampStep 1 \<noteq> currentStepRef initialNav"
    by (simp_all add: initialNav_def clampStep_id)
  have v1: "visibleDetails ?s1 = {}"
    unfolding stepTo_fields(3) [OF i0] goToStep_flags(1) [OF i0]
    by (simp add: steps_nth_examples initialNav_def)
  have i1: "\<not> isAnimating ?s1" "clampStep 2 \<noteq> currentStepRef ?s1"
    by (simp_all add: stepTo_fields [OF i0] clampStep_id)
  have v2: "visibleDetails ?s2 = {1}"
    by (simp add: stepTo_fields(3) [OF i1] goToStep_flags(1) [OF i1]
        steps_nth_examples v1)
  have i2: "\<not> isAnimating ?s2" "clampStep 3 \<noteq> currentStepRef ?s2"
    by (simp_all add: stepTo_fields [OF i1] clampStep_id)
  have st: "steps ! nat (clampStep 3) = \<lparr>sectionIndex = 2, subStep = Title\<rparr>"
    by (simp add: steps_nth_examples)
  from goToStep_visibility_frame [OF i2 refl refl, of examplePage] i2 st v2
  show ?thesis by simp
qed

section \<open>Effects of a transition and the missing anchor\<close>

lemma animateSectionChange_effects:
  "x \<in> set (snd (animateSectionChange e p c A))
   \<Longrightarrow> (\<exists>i w. x = TextOut i w) \<or> (\<exists>i h. x = TextIn i h) \<or> x = TypeError"
  by (auto simp: animateSectionChange_def animateTextOut_def animateTextIn_def Let_def
      split: option.splits prod.splits if_splits)

lemma fireAndScroll_effects:
  "x \<in> set (snd (fireAndScroll e p c st s))
   \<Longrightarrow> (\<exists>i w. x = TextOut i w) \<or> (\<exists>i h. x = TextIn i h) \<or> x = TypeError
       \<or> (\<exists>el. getSectionElements e (sectionIndex st) = Some el \<and> x = ScrollTo (offsetTop el))"
  using animateSectionChange_effects [of x e p c "activeTextSections s"]
  by (auto simp: fireAndScroll_def getSectionElements_def Let_def
      split: option.splits prod.splits if_splits)

lemma goToStep_effects:
  "x \<in> set (snd (goToStep e t s))
   \<Longrightarrow> (\<exists>i w. x = TextOut i w) \<or> (\<exists>i h. x = TextIn i h) \<or> x = TypeError
       \<or> (\<exists>el. getSectionElements e (sectionIndex (steps ! nat (clampStep t))) = Some el
              \<and> x = ScrollTo (offsetTop el))"
  by (auto simp: goToStep_def Let_def elemAt_clampStep elemAt_sections
      split: if_splits sub_step.splits dest: fireAndScroll_effects)

text \<open>
  With the step list of the page no lookup inside \<^verbatim>\<open>goToStep\<close> can miss, so the call
  never raises.
\<close>

lemma goToStep_no_throw: "TypeError \<notin> set (snd (goToStep e t s))"
proof
  assume "TypeError \<in> set (snd (goToStep e t s))"
  then obtain st s1 where "TypeError \<in> set (snd (fireAndScroll e (currentStepRef s) (clampStep t) st s1))"
    by (auto simp: goToStep_def Let_def elemAt_clampStep elemAt_sections
        split: if_splits sub_step.splits)
  moreover have "TypeError \<notin> set (snd (animateSectionChange e (currentStepRef s) (clampStep t)
      (activeTextSections s1)))"
    using elemAt_clampStep by (rule animateSectionChange_no_throw)
  ultimately show False
    by (auto simp: fireAndScroll_def Let_def split: prod.splits option.splits if_splits)
qed

lemma goToStep_missing_anchor:
  assumes "\<not> isAnimating s" and "clampStep t \<noteq> currentStepRef s"
    and "getSectionElements e (sectionIndex (steps ! nat (clampStep t))) = None"
  shows "currentStepRef (fst (goToStep e t s)) = clampStep t
       \<and> isAnimating (fst (goToStep e t s))
       \<and> (\<forall>y. ScrollTo y \<notin> set (snd (goToStep e t s)))
       \<and> (\<forall>e' t'. goToStep e' t' (fst (goToStep e t s)) = (fst (goToStep e t s), []))"
  using goToStep_commit(1,3) [OF assms(1,2), of e] assms(3) goToStep_effects [of _ e t s]
  by (auto simp: goToStep_locked)








section \<open>The gallery's slide lock\<close>

lemma onSlideComplete_unlocks: "\<not> isMoving (onSlideComplete g)"
  by (simp add: onSlideComplete_def)

lemma slideTo_false_entry: "fst (slideTo e i g) = False \<Longrightarrow> \<not> isMoving g"
  by (auto simp: slideTo_def Let_def split: if_splits)

lemma slideTo_false_mounted:
  "track e \<Longrightarrow> fst (slideTo e i g) = False \<Longrightarrow> fst (snd (slideTo e i g)) = g \<and> \<not> isMoving g"
  by (auto simp: slideTo_def Let_def split: if_splits)

text \<open>
  Claim C7. Sub-navigator lock-release ordering. The track element is rendered with the
  gallery, and next/prev are registered by an effect after mount and withdrawn on unmount,
  so the track reference is set whenever they are called. Then, for every gallery state,
  whenever next() or prev() reports false the slide lock is not held: it was free when the
  call began, the call leaves the gallery as it was (lock still free, no tween started),
  and while the lock is held both calls report true.
\<close>

theorem subnav_false_lock_free:
  assumes "track e"
  shows "(fst (nav_next e g) = False \<longrightarrow>
            \<not> isMoving g \<and> \<not> isMoving (fst (snd (nav_next e g)))
            \<and> fst (snd (nav_next e g)) = g \<and> snd (snd (nav_next e g)) = [])
       \<and> (fst (nav_prev e g) = False \<longrightarrow>
            \<not> isMoving g \<and> \<not> isMoving (fst (snd (nav_prev e g)))
            \<and> fst (snd (nav_prev e g)) = g \<and> snd (snd (nav_prev e g)) = [])
       \<and> (isMoving g \<longrightarrow> fst (nav_next e g) \<and> fst (nav_prev e g))"
  using assms by (auto simp: nav_next_def nav_prev_def slideTo_def Let_def split: if_splits)

theorem subnav_false_lock_free_witness:
  "track examplePage
   \<and> fst (nav_next examplePage \<lparr>currentCard = 3, isMoving = False\<rparr>) = False
   \<and> \<not> isMoving (fst (snd (nav_next examplePage \<lparr>currentCard = 3, isMoving = False\<rparr>)))
   \<and> fst (nav_prev examplePage \<lparr>currentCard = 0, isMoving = False\<rparr>) = False
   \<and> \<not> isMoving (fst (snd (nav_prev examplePage \<lparr>currentCard = 0, isMoving = False\<rparr>)))
   \<and> fst (nav_next examplePage \<lparr>currentCard = 1, isMoving = True\<rparr>)"
proof -
  have mounted: "track examplePage"
    by (simp add: examplePage_def)
  have n: "fst (nav_next examplePage \<lparr>currentCard = 3, isMoving = False\<rparr>) = False"
    and p: "fst (nav_prev examplePage \<lparr>currentCard = 0, isMoving = False\<rparr>) = False"
    by (simp_all add: nav_next_def nav_prev_def slideTo_def projects_def)
  from subnav_false_lock_free [OF mounted, of "\<lparr>currentCard = 3, isMoving = False\<rparr>"]
    subnav_false_lock_free [OF mounted, of "\<lparr>currentCard = 0, isMoving = False\<rparr>"]
    subnav_false_lock_free [OF mounted, of "\<lparr>currentCard = 1, isMoving = True\<rparr>"]
    mounted n p
  show ?thesis by simp
qed

section \<open>Progress reporter: the published value\<close>

text \<open>
  Claim C3 as stated fails: the reporter does not clamp. With the page pulled 100 px past
  its top (scroll offset -100, document height 3000, viewport height 1000) the published
  progress is -1/20, where the clamped formula gives 0.
\<close>

theorem progress_unclamped_counterexample:
  "progress (examplePage\<lparr>scrollY := - 100, scrollHeight := 3000, innerHeight := 1000\<rparr>) = - 1 / 20
   \<and> clampedProgress (- 100) 3000 1000 = 0
   \<and> \<not> (0 \<le> progress (examplePage\<lparr>scrollY := - 100, scrollHeight := 3000, innerHeight := 1000\<rparr>))"
  by (simp add: progress_def clampedProgress_def)

text \<open>
  Claim C3, amended. The published progress is the scroll offset divided by (document
  height - viewport height) when that denominator is positive and 0 otherwise, without a
  clamp. It equals the clamped formula, and lies in the unit interval, whenever the scroll
  offset lies between 0 and the denominator. Document height 3000, viewport height 1000
  and scroll offset 1000 give 1/2.
\<close>

theorem progress_formula:
  "progress e =
     (if scrollHeight e - innerHeight e \<le> 0 then 0
      else scrollY e / (scrollHeight e - innerHeight e))
   \<and> syncProgress e = [ScrollProgress (progress e)]
   \<and> (0 \<le> scrollY e \<and> scrollY e \<le> scrollHeight e - innerHeight e \<longrightarrow>
        progress e = clampedProgress (scrollY e) (scrollHeight e) (innerHeight e)
        \<and> 0 \<le> progress e \<and> progress e \<le> 1)
   \<and> (scrollHeight e = 3000 \<and> innerHeight e = 1000 \<and> scrollY e = 1000 \<longrightarrow>
        progress e = 1 / 2)"
  by (auto simp: progress_def syncProgress_def clampedProgress_def Let_def min_def max_def
      divide_le_eq_1)

theorem progress_formula_witness:
  "0 \<le> scrollY (examplePage\<lparr>scrollY := 1000, scrollHeight := 3000, innerHeight := 1000\<rparr>)
   \<and> scrollY (examplePage\<lparr>scrollY := 1000, scrollHeight := 3000, innerHeight := 1000\<rparr>)
       \<le> scrollHeight (examplePage\<lparr>scrollY := 1000, scrollHeight := 3000, innerHeight := 1000\<rparr>)
          - innerHeight (examplePage\<lparr>scrollY := 1000, scrollHeight := 3000, innerHeight := 1000\<rparr>)
   \<and> progress (examplePage\<lparr>scrollY := 1000, scrollHeight := 3000, innerHeight := 1000\<rparr>) = 1 / 2
   \<and> syncProgress (examplePage\<lparr>scrollY := 1000, scrollHeight := 3000, innerHeight := 1000\<rparr>)
       = [ScrollProgress (1 / 2)]"
  using progress_formula [of "examplePage\<lparr>scrollY := 1000, scrollHeight := 3000, innerHeight := 1000\<rparr>"]
  by simp

section \<open>Rounding of the wheel accumulator\<close>

lemma rne_of_int: "rne (of_int n) = n"
  by (simp add: rne_def)

lemma rne_ge_floor: "\<lfloor>y\<rfloor> \<le> rne y"
  by (simp add: rne_def Let_def)

lemma rne_le_ceiling: "rne y \<le> \<lceil>y\<rceil>"
proof (cases "y = of_int \<lfloor>y\<rfloor>")
  case True
  then have "rne y = rne (of_int \<lfloor>y\<rfloor>)" by simp
  then have "rne y = \<lfloor>y\<rfloor>" by (simp only: rne_of_int)
  then show ?thesis by simp
next
  case False
  then have "\<lceil>y\<rceil> = \<lfloor>y\<rfloor> + 1"
    by (simp add: ceiling_altdef)
  then show ?thesis by (simp add: rne_def Let_def)
qed

lemma floor_log2:
  assumes "2 powr of_int e \<le> x" and "x < 2 powr (of_int e + 1)"
  shows "\<lfloor>log 2 x\<rfloor> = e"
proof -
  have "0 < (2::real) powr of_int e" by simp
  with assms(1) have pos: "0 < x" by linarith
  have "of_int e \<le> log 2 x"
    using assms(1) pos by (simp add: le_log_iff)
  moreover have "log 2 x < of_int e + 1"
    using assms(2) pos by (simp add: log_less_iff)
  ultimately show ?thesis by linarith
qed

lemma log2_floor_bounds:
  assumes "0 < x"
  shows "2 powr of_int \<lfloor>log 2 x\<rfloor> \<le> x" and "x < 2 powr (of_int \<lfloor>log 2 x\<rfloor> + 1)"
proof -
  have "of_int \<lfloor>log 2 x\<rfloor> \<le> log 2 x" by simp
  then show "2 powr of_int \<lfloor>log 2 x\<rfloor> \<le> x"
    using assms by (simp only: le_log_iff [of 2 x, OF _ assms] semiring_norm)
  have "log 2 x < of_int \<lfloor>log 2 x\<rfloor> + 1" by linarith
  then show "x < 2 powr (of_int \<lfloor>log 2 x\<rfloor> + 1)"
    using assms by (simp only: log_less_iff [of 2 x, OF _ assms] semiring_norm)
qed

lemma ulp64_at:
  assumes "2 powr of_int e \<le> \<bar>x\<bar>" and "\<bar>x\<bar> < 2 powr (of_int e + 1)" and "- 1022 \<le> e"
  shows "ulp64 x = 2 powr (of_int e - 52)"
  using floor_log2 [OF assms(1,2)] assms(3) by (simp add: ulp64_def max_def)

lemma round64_at:
  assumes "2 powr of_int e \<le> \<bar>x\<bar>" and "\<bar>x\<bar> < 2 powr (of_int e + 1)" and "- 1022 \<le> e"
  shows "round64 x = of_int (rne (x / 2 powr (of_int e - 52))) * 2 powr (of_int e - 52)"
proof -
  have "0 < (2::real) powr of_int e" by simp
  with assms(1) have "x \<noteq> 0" by linarith
  then show ?thesis by (simp add: round64_def ulp64_at [OF assms])
qed

lemma round64_ge_threshold:
  assumes "50 \<le> x"
  shows "50 \<le> round64 x"
proof -
  define e where "e = \<lfloor>log 2 x\<rfloor>"
  have pos: "0 < x" using assms by simp
  have lo: "2 powr of_int e \<le> x" and hi: "x < 2 powr (of_int e + 1)"
    unfolding e_def using log2_floor_bounds [OF pos] by simp_all
  have "(2::real) powr 5 \<le> x" using assms by simp
  then have "5 \<le> log 2 x" using pos by (simp only: le_log_iff [of 2 x, OF _ pos] semiring_norm)
  then have e5: "5 \<le> e" unfolding e_def by (simp add: le_floor_iff)
  let ?u = "2 powr (of_int e - 52) :: real"
  have upos: "0 < ?u" by simp
  have r: "round64 x = of_int (rne (x / ?u)) * ?u"
    using round64_at [of e x] lo hi pos e5 by simp
  show ?thesis
  proof (cases "e = 5")
    case True
    have u: "?u = 1 / 2 ^ 47"
      by (simp add: True powr_minus_divide)
    have "of_int (50 * 2 ^ 47) \<le> x / ?u"
      using assms by (simp add: u)
    then have "50 * 2 ^ 47 \<le> \<lfloor>x / ?u\<rfloor>" by (simp only: le_floor_iff)
    with rne_ge_floor [of "x / ?u"] have "50 * 2 ^ 47 \<le> rne (x / ?u)" by linarith
    then have "(of_int (50 * 2 ^ 47) :: real) \<le> of_int (rne (x / ?u))"
      by (simp only: of_int_le_iff)
    then have "of_int (50 * 2 ^ 47) * ?u \<le> of_int (rne (x / ?u)) * ?u"
      using upos by (rule mult_right_mono [OF _ less_imp_le])
    moreover have "of_int (50 * 2 ^ 47) * ?u = 50" by (simp add: u)
    ultimately show ?thesis by (simp only: r)
  next
    case False
    with e5 have e6: "6 \<le> e" by simp
    have "2 powr of_int e / ?u \<le> x / ?u"
      using lo upos by (simp add: divide_right_mono)
    moreover have "2 powr of_int e / ?u = 2 powr 52"
      by (simp add: powr_diff [symmetric])
    moreover have p52: "(2::real) powr 52 = of_int (2 ^ 52)"
      by simp
    ultimately have "of_int (2 ^ 52) \<le> x / ?u" by simp
    then have "2 ^ 52 \<le> \<lfloor>x / ?u\<rfloor>" by (simp only: le_floor_iff)
    with rne_ge_floor [of "x / ?u"] have "2 ^ 52 \<le> rne (x / ?u)" by linarith
    then have "(of_int (2 ^ 52) :: real) \<le> of_int (rne (x / ?u))"
      by (simp only: of_int_le_iff)
    then have "of_int (2 ^ 52) * ?u \<le> of_int (rne (x / ?u)) * ?u"
      using upos by (rule mult_right_mono [OF _ less_imp_le])
    moreover have "of_int (2 ^ 52) * ?u = 2 powr of_int e"
      by (simp add: powr_diff)
    moreover have "(64::real) \<le> 2 powr of_int e"
    proof -
      have "(2::real) powr of_int 6 \<le> 2 powr of_int e"
        using e6 by (intro powr_mono) simp_all
      then show ?thesis by simp
    qed
    ultimately show ?thesis by (simp only: r)
  qed
qed

lemma round64_le_threshold:
  assumes "x \<le> - 50"
  shows "round64 x \<le> - 50"
proof -
  define e where "e = \<lfloor>log 2 \<bar>x\<bar>\<rfloor>"
  have pos: "0 < \<bar>x\<bar>" and ax: "\<bar>x\<bar> = - x" using assms by simp_all
  have lo: "2 powr of_int e \<le> \<bar>x\<bar>" and hi: "\<bar>x\<bar> < 2 powr (of_int e + 1)"
    unfolding e_def using log2_floor_bounds [OF pos] by simp_all
  have "(2::real) powr 5 \<le> \<bar>x\<bar>" using assms by simp
  then have "5 \<le> log 2 \<bar>x\<bar>"
    using pos by (simp only: le_log_iff [of 2 "\<bar>x\<bar>", OF _ pos] semiring_norm)
  then have e5: "5 \<le> e" unfolding e_def by (simp add: le_floor_iff)
  let ?u = "2 powr (of_int e - 52) :: real"
  have upos: "0 < ?u" by simp
  have r: "round64 x = of_int (rne (x / ?u)) * ?u"
    using round64_at [of e x] lo hi e5 by simp
  show ?thesis
  proof (cases "e = 5")
    case True
    have u: "?u = 1 / 2 ^ 47"
      by (simp add: True powr_minus_divide)
    have "x / ?u \<le> of_int (- (50 * 2 ^ 47))"
      using assms by (simp add: u)
    then have "\<lceil>x / ?u\<rceil> \<le> - (50 * 2 ^ 47)" by (simp only: ceiling_le_iff)
    with rne_le_ceiling [of "x / ?u"] have "rne (x / ?u) \<le> - (50 * 2 ^ 47)" by linarith
    then have "(of_int (rne (x / ?u)) :: real) \<le> of_int (- (50 * 2 ^ 47))"
      by (simp only: of_int_le_iff)
    then have "of_int (rne (x / ?u)) * ?u \<le> of_int (- (50 * 2 ^ 47)) * ?u"
      using upos by (rule mult_right_mono [OF _ less_imp_le])
    moreover have "of_int (- (50 * 2 ^ 47)) * ?u = - 50" by (simp add: u)
    ultimately show ?thesis by (simp only: r)
  next
    case False
    with e5 have e6: "6 \<le> e" by simp
    have "2 powr of_int e / ?u \<le> \<bar>x\<bar> / ?u"
      using lo upos by (simp add: divide_right_mono)
    moreover have "2 powr of_int e / ?u = 2 powr 52"
      by (simp add: powr_diff [symmetric])
    moreover have p52: "(2::real) powr 52 = of_int (2 ^ 52)"
      by simp
    ultimately have "of_int (2 ^ 52) \<le> \<bar>x\<bar> / ?u" by simp
    then have "x / ?u \<le> of_int (- (2 ^ 52))" by (simp add: ax)
    then have "\<lceil>x / ?u\<rceil> \<le> - (2 ^ 52)" by (simp only: ceiling_le_iff)
    with rne_le_ceiling [of "x / ?u"] have "rne (x / ?u) \<le> - (2 ^ 52)" by linarith
    then have "(of_int (rne (x / ?u)) :: real) \<le> of_int (- (2 ^ 52))"
      by (simp only: of_int_le_iff)
    then have "of_int (rne (x / ?u)) * ?u \<le> of_int (- (2 ^ 52)) * ?u"
      using upos by (rule mult_right_mono [OF _ less_imp_le])
    moreover have "of_int (- (2 ^ 52)) * ?u = - (2 powr of_int e)"
    proof -
      have "of_int (2 ^ 52) * ?u = 2 powr of_int e"
        by (simp add: powr_diff)
      then show ?thesis by simp
    qed
    moreover have "(64::real) \<le> 2 powr of_int e"
    proof -
      have "(2::real) powr of_int 6 \<le> 2 powr of_int e"
        using e6 by (intro powr_mono) simp_all
      then show ?thesis by simp
    qed
    ultimately show ?thesis by (simp only: r)
  qed
qed

text \<open>
  The burst \<^verbatim>\<open>47.5, 0.8, 0.8, 0.9\<close> as the engine sums it: every partial sum is rounded,
  and the accumulator ends just below the threshold although the exact sum of the four
  doubles is above it. One more delta of \<^verbatim>\<open>0.5\<close> is added without rounding.
\<close>

lemma slowBurst_sums:
  "add64 0 (95 / 2) = 95 / 2"
  "add64 (95 / 2) d08 = 3398810343781171 / 2 ^ 46"
  "add64 (3398810343781171 / 2 ^ 46) d08 = 1727552669561651 / 2 ^ 45"
  "add64 (1727552669561651 / 2 ^ 45) d09 = 7036874417766399 / 2 ^ 47"
  "add64 (7036874417766399 / 2 ^ 47) (1 / 2) = 7107243161944063 / 2 ^ 47"
proof -
  show "add64 0 (95 / 2) = 95 / 2"
    unfolding add64_def using round64_at [of 5 "0 + 95 / 2"]
    by (simp add: powr_minus_divide rne_def)
  show "add64 (95 / 2) d08 = 3398810343781171 / 2 ^ 46"
    unfolding add64_def d08_def using round64_at [of 5 "95 / 2 + 3602879701896397 / 2 ^ 52"]
    by (simp add: powr_minus_divide rne_def)
  show "add64 (3398810343781171 / 2 ^ 46) d08 = 1727552669561651 / 2 ^ 45"
    unfolding add64_def d08_def
    using round64_at [of 5 "3398810343781171 / 2 ^ 46 + 3602879701896397 / 2 ^ 52"]
    by (simp add: powr_minus_divide rne_def)
  show "add64 (1727552669561651 / 2 ^ 45) d09 = 7036874417766399 / 2 ^ 47"
    unfolding add64_def d09_def
    using round64_at [of 5 "1727552669561651 / 2 ^ 45 + 8106479329266893 / 2 ^ 53"]
    by (simp add: powr_minus_divide rne_def)
  show "add64 (7036874417766399 / 2 ^ 47) (1 / 2) = 7107243161944063 / 2 ^ 47"
    unfolding add64_def using round64_at [of 5 "7036874417766399 / 2 ^ 47 + 1 / 2"]
    by (simp add: powr_minus_divide rne_def)
qed

lemma slowBurst_exact_sum: "THRESHOLD < sum_list slowBurst"
  by (simp add: slowBurst_def d08_def d09_def THRESHOLD_def)

text \<open>
  Rounding can also carry the accumulator up to the threshold: the deltas
  \<^verbatim>\<open>21.4, 10.2, 18.4\<close> sum exactly to less than 50, and the engine's accumulator is 50.
\<close>

lemma roundedUp_sums:
  "add64 (add64 (add64 0 d214) d102) d184 = 50"
  "d214 + d102 + d184 < 50"
proof -
  have a: "add64 0 d214 = d214"
    unfolding add64_def d214_def using round64_at [of 4 "0 + 3011782250804019 / 2 ^ 47"]
    by (simp add: powr_minus_divide rne_def)
  have b: "add64 d214 d102 = 8894609264056729 / 2 ^ 48"
    unfolding add64_def d214_def d102_def
    using round64_at [of 4 "3011782250804019 / 2 ^ 47 + 2871044762448691 / 2 ^ 48"]
    by (simp add: powr_minus_divide rne_def)
  have c: "add64 (8894609264056729 / 2 ^ 48) d184 = 50"
    unfolding add64_def d184_def
    using round64_at [of 5 "8894609264056729 / 2 ^ 48 + 2589569785738035 / 2 ^ 47"]
    by (simp add: powr_minus_divide rne_def)
  show "add64 (add64 (add64 0 d214) d102) d184 = 50"
    by (simp only: a b c)
  show "d214 + d102 + d184 < 50"
    by (simp add: d214_def d102_def d184_def)
qed

section \<open>Wheel input: threshold and bubbling\<close>

lemma intents_append: "intents (xs @ ys) = intents xs @ intents ys"
  by (induction xs rule: intents.induct) simp_all

lemma intents_none: "(\<And>i. Intent i \<notin> set es) \<Longrightarrow> intents es = []"
  by (induction es rule: intents.induct) auto

lemma goToStep_intents: "intents (snd (goToStep e t s)) = []"
proof (rule intents_none)
  fix i
  show "Intent i \<notin> set (snd (goToStep e t s))"
    using goToStep_effects [of "Intent i" e t s] by auto
qed

lemma goToStep_wheelAccum: "wheelAccum (fst (goToStep e t s)) = wheelAccum s"
proof (cases "\<not> isAnimating s \<and> clampStep t \<noteq> currentStepRef s")
  case True
  then show ?thesis by (simp add: goToStep_commit(4))
next
  case False
  then have "goToStep e t s = (s, [])"
    using goToStep_locked goToStep_same by blast
  then show ?thesis by simp
qed

lemma emit_fst: "fst (emit e t s) = fst (goToStep e t s)"
  by (simp add: emit_def split: prod.splits)

lemma emit_intents: "intents (snd (emit e t s)) = [t]"
  using goToStep_intents [of e t s] by (cases "goToStep e t s") (simp add: emit_def)

lemma onWheel_plain:
  assumes "elemAt steps (currentStepRef s) = Some step" and "subStep step \<noteq> Portfolio"
    and "\<not> isAnimating s"
  shows "onWheel e d (s, n) =
    (if \<bar>add64 (wheelAccum s) d\<bar> \<ge> THRESHOLD
     then ((fst (emit e (currentStepRef s + (if add64 (wheelAccum s) d > 0 then 1 else - 1))
                  (s\<lparr>wheelTimer := True, wheelAccum := 0\<rparr>)), n),
           PreventDefault #
           snd (emit e (currentStepRef s + (if add64 (wheelAccum s) d > 0 then 1 else - 1))
                  (s\<lparr>wheelTimer := True, wheelAccum := 0\<rparr>)))
     else ((s\<lparr>wheelAccum := add64 (wheelAccum s) d, wheelTimer := True\<rparr>, n), [PreventDefault]))"
  using assms by (simp add: onWheel_def Let_def split_beta)

lemma wheelBurst_append:
  "wheelBurst e (xs @ ys) sn =
     (case wheelBurst e xs sn of
        (sn1, es1) \<Rightarrow> (case wheelBurst e ys sn1 of (sn2, es2) \<Rightarrow> (sn2, es1 @ es2)))"
  by (induction xs arbitrary: sn) (simp_all split: prod.splits)

lemma wheelBurst_below:
  assumes "elemAt steps (currentStepRef s) = Some step" and "subStep step \<noteq> Portfolio"
    and "\<not> isAnimating s"
    and "\<forall>k. 0 < k \<and> k \<le> length ds \<longrightarrow> \<bar>foldl add64 (wheelAccum s) (take k ds)\<bar> < THRESHOLD"
  shows "wheelBurst e ds (s, n) =
    ((if ds = [] then s
      else s\<lparr>wheelAccum := foldl add64 (wheelAccum s) ds, wheelTimer := True\<rparr>, n),
     replicate (length ds) PreventDefault)"
  using assms
proof (induction ds arbitrary: s)
  case Nil
  show ?case by simp
next
  case (Cons d ds)
  let ?s1 = "s\<lparr>wheelAccum := add64 (wheelAccum s) d, wheelTimer := True\<rparr>"
  from Cons.prems(4) [rule_format, of 1] have first: "\<bar>add64 (wheelAccum s) d\<bar> < THRESHOLD"
    by simp
  have step1: "onWheel e d (s, n) = ((?s1, n), [PreventDefault])"
    using onWheel_plain [OF Cons.prems(1-3), of e d n] first by simp
  have rest: "\<forall>k. 0 < k \<and> k \<le> length ds \<longrightarrow>
      \<bar>foldl add64 (wheelAccum ?s1) (take k ds)\<bar> < THRESHOLD"
  proof (intro allI impI)
    fix k
    assume "0 < k \<and> k \<le> length ds"
    with Cons.prems(4) [rule_format, of "Suc k"]
    show "\<bar>foldl add64 (wheelAccum ?s1) (take k ds)\<bar> < THRESHOLD"
      by simp
  qed
  have "wheelBurst e ds (?s1, n) =
    ((if ds = [] then ?s1
      else ?s1\<lparr>wheelAccum := foldl add64 (wheelAccum ?s1) ds, wheelTimer := True\<rparr>, n),
     replicate (length ds) PreventDefault)"
    by (rule Cons.IH) (use Cons.prems rest in simp_all)
  then show ?case
    by (simp add: step1)
qed

lemma intents_replicate: "intents (replicate k PreventDefault) = []"
  by (induction k) simp_all

lemma slowBurst_running:
  "foldl add64 0 [95 / 2] = 95 / 2"
  "foldl add64 0 [95 / 2, d08] = 3398810343781171 / 2 ^ 46"
  "foldl add64 0 [95 / 2, d08, d08] = 1727552669561651 / 2 ^ 45"
  "foldl add64 0 [95 / 2, d08, d08, d09] = 7036874417766399 / 2 ^ 47"
  by (simp_all only: foldl_Nil foldl_Cons slowBurst_sums)

lemma slowBurst_below:
  assumes "0 < k \<and> k \<le> length slowBurst"
  shows "\<bar>foldl add64 0 (take k slowBurst)\<bar> < THRESHOLD"
proof -
  from assms have "k = 1 \<or> k = 2 \<or> k = 3 \<or> k = 4"
    by (auto simp: slowBurst_def)
  then have "take k slowBurst = [95 / 2] \<or> take k slowBurst = [95 / 2, d08]
      \<or> take k slowBurst = [95 / 2, d08, d08] \<or> take k slowBurst = [95 / 2, d08, d08, d09]"
    by (auto simp: slowBurst_def)
  moreover have "\<bar>foldl add64 0 [95 / 2]\<bar> < THRESHOLD"
    "\<bar>foldl add64 0 [95 / 2, d08]\<bar> < THRESHOLD"
    "\<bar>foldl add64 0 [95 / 2, d08, d08]\<bar> < THRESHOLD"
    "\<bar>foldl add64 0 [95 / 2, d08, d08, d09]\<bar> < THRESHOLD"
    unfolding slowBurst_running by (simp_all add: THRESHOLD_def)
  ultimately show ?thesis
    by metis
qed

text \<open>
  Claim C5. Wheel threshold: on a step that is not the gallery step and with the lock
  free, every wheel event adds its delta to the running accumulator (a binary64
  addition). While the accumulator stays below the threshold (50) in absolute value, no
  intent is emitted. The event that brings the accumulator to the threshold or beyond
  emits exactly one intent, to the current step + 1 when the accumulator is positive and
  to the current step - 1 otherwise, and leaves the accumulator at zero; the state is the
  one goToStep returns for that target from the state with the accumulator already reset.
\<close>

theorem wheel_threshold:
  assumes "elemAt steps (currentStepRef s) = Some step" and "subStep step \<noteq> Portfolio"
    and "\<not> isAnimating s"
    and "\<forall>k. 0 < k \<and> k \<le> length ds \<longrightarrow> \<bar>foldl add64 (wheelAccum s) (take k ds)\<bar> < THRESHOLD"
    and "\<bar>add64 (foldl add64 (wheelAccum s) ds) d\<bar> \<ge> THRESHOLD"
    and "target = currentStepRef s
           + (if add64 (foldl add64 (wheelAccum s) ds) d > 0 then 1 else - 1)"
  shows "wheelAccum (fst (fst (wheelBurst e ds (s, n)))) = foldl add64 (wheelAccum s) ds
       \<and> intents (snd (wheelBurst e ds (s, n))) = []
       \<and> intents (snd (wheelBurst e (ds @ [d]) (s, n))) = [target]
       \<and> wheelAccum (fst (fst (wheelBurst e (ds @ [d]) (s, n)))) = 0
       \<and> fst (fst (wheelBurst e (ds @ [d]) (s, n)))
           = fst (goToStep e target (s\<lparr>wheelTimer := True, wheelAccum := 0\<rparr>))"
proof -
  let ?s1 = "if ds = [] then s
             else s\<lparr>wheelAccum := foldl add64 (wheelAccum s) ds, wheelTimer := True\<rparr>"
  have burst: "wheelBurst e ds (s, n) = ((?s1, n), replicate (length ds) PreventDefault)"
    using assms(1-4) by (rule wheelBurst_below)
  have acc1: "wheelAccum ?s1 = foldl add64 (wheelAccum s) ds"
    by simp
  have pre1: "elemAt steps (currentStepRef ?s1) = Some step" "\<not> isAnimating ?s1"
    using assms(1,3) by simp_all
  have reset: "?s1\<lparr>wheelTimer := True, wheelAccum := 0\<rparr> = s\<lparr>wheelTimer := True, wheelAccum := 0\<rparr>"
    by simp
  have cur1: "currentStepRef ?s1 = currentStepRef s"
    by simp
  have last: "onWheel e d (?s1, n) =
      ((fst (emit e target (s\<lparr>wheelTimer := True, wheelAccum := 0\<rparr>)), n),
       PreventDefault # snd (emit e target (s\<lparr>wheelTimer := True, wheelAccum := 0\<rparr>)))"
    unfolding onWheel_plain [OF pre1(1) assms(2) pre1(2), of e d n] acc1 reset cur1
    using assms(5,6) by simp
  have whole: "wheelBurst e (ds @ [d]) (s, n) =
      ((fst (emit e target (s\<lparr>wheelTimer := True, wheelAccum := 0\<rparr>)), n),
       replicate (length ds) PreventDefault @
       PreventDefault # snd (emit e target (s\<lparr>wheelTimer := True, wheelAccum := 0\<rparr>)))"
    by (simp add: wheelBurst_append burst last)
  have a: "wheelAccum (fst (fst (wheelBurst e ds (s, n)))) = foldl add64 (wheelAccum s) ds"
    by (simp add: burst)
  have b: "intents (snd (wheelBurst e ds (s, n))) = []"
    by (simp add: burst intents_replicate)
  have c: "intents (snd (wheelBurst e (ds @ [d]) (s, n))) = [target]"
    by (simp add: whole intents_append intents_replicate emit_intents)
  have d: "wheelAccum (fst (fst (wheelBurst e (ds @ [d]) (s, n)))) = 0"
    by (simp add: whole emit_fst goToStep_wheelAccum)
  have e: "fst (fst (wheelBurst e (ds @ [d]) (s, n)))
           = fst (goToStep e target (s\<lparr>wheelTimer := True, wheelAccum := 0\<rparr>))"
    by (simp add: whole emit_fst)
  from a b c d e show ?thesis by simp
qed

theorem wheel_threshold_witness:
  "elemAt steps (currentStepRef initialNav) = Some \<lparr>sectionIndex = 0, subStep = Title\<rparr>
   \<and> \<not> isAnimating initialNav
   \<and> THRESHOLD < sum_list slowBurst
   \<and> wheelAccum (fst (fst (wheelBurst examplePage slowBurst (initialNav, None))))
       = 7036874417766399 / 2 ^ 47
   \<and> 7036874417766399 / 2 ^ 47 < THRESHOLD
   \<and> intents (snd (wheelBurst examplePage slowBurst (initialNav, None))) = []
   \<and> intents (snd (wheelBurst examplePage (slowBurst @ [1 / 2]) (initialNav, None))) = [1]
   \<and> wheelAccum (fst (fst (wheelBurst examplePage (slowBurst @ [1 / 2]) (initialNav, None)))) = 0"
proof -
  have zero: "wheelAccum initialNav = 0"
    by (simp add: initialNav_def)
  have total: "foldl add64 0 slowBurst = 7036874417766399 / 2 ^ 47"
    unfolding slowBurst_def by (rule slowBurst_running)
  have h1: "elemAt steps (currentStepRef initialNav) = Some \<lparr>sectionIndex = 0, subStep = Title\<rparr>"
    by (simp add: initialNav_def elemAt_def steps_eq)
  have h2: "subStep \<lparr>sectionIndex = 0, subStep = Title\<rparr> \<noteq> Portfolio"
    by simp
  have h3: "\<not> isAnimating initialNav"
    by (simp add: initialNav_def)
  have h4: "\<forall>k. 0 < k \<and> k \<le> length slowBurst \<longrightarrow>
      \<bar>foldl add64 (wheelAccum initialNav) (take k slowBurst)\<bar> < THRESHOLD"
    unfolding zero using slowBurst_below by blast
  have h5: "\<bar>add64 (foldl add64 (wheelAccum initialNav) slowBurst) (1 / 2)\<bar> \<ge> THRESHOLD"
    unfolding zero total slowBurst_sums by (simp add: THRESHOLD_def)
  have h6: "(1::int) = currentStepRef initialNav
      + (if add64 (foldl add64 (wheelAccum initialNav) slowBurst) (1 / 2) > 0 then 1 else - 1)"
    unfolding zero total slowBurst_sums by (simp add: initialNav_def)
  have below: "(7036874417766399 / 2 ^ 47 :: real) < THRESHOLD"
    by (simp add: THRESHOLD_def)
  note run = wheel_threshold [OF h1 h2 h3 h4 h5 h6, of examplePage None, unfolded zero total]
  from run h1 h3 below slowBurst_exact_sum show ?thesis by blast
qed

lemma portfolio_step_index:
  assumes "elemAt steps i = Some step" and "subStep step = Portfolio"
  shows "i = 12"
proof -
  have "n < 19 \<Longrightarrow> subStep (steps ! n) = Portfolio \<Longrightarrow> n = 12" for n
    unfolding steps_eq by (simp add: nth_Cons split: nat.splits)
  note only = this [of "nat i"]
  from assms have range: "0 \<le> i" "i < 19" and st: "step = steps ! nat i"
    by (auto simp: elemAt_def length_steps split: if_splits)
  from range have "nat i < 19" by linarith
  with only st assms(2) have "nat i = 12" by simp
  with range show ?thesis by linarith
qed

lemma slideTo_false_effects: "fst (slideTo e i g) = False \<Longrightarrow> snd (snd (slideTo e i g)) = []"
  by (auto simp: slideTo_def Let_def split: if_splits)

lemma slideTo_at_end:
  "\<not> isMoving g \<Longrightarrow> i < 0 \<or> int (length projects) \<le> i \<Longrightarrow> slideTo e i g = (False, g, [])"
  by (auto simp: slideTo_def)

lemma onWheel_portfolio_next:
  assumes "elemAt steps (currentStepRef s) = Some step" and "subStep step = Portfolio"
    and "\<not> isAnimating s" and "THRESHOLD \<le> add64 (wheelAccum s) d"
    and "fst (nav_next e g) = False"
  shows "onWheel e d (s, Some g) =
    ((fst (emit e (currentStepRef s + 1) (s\<lparr>wheelTimer := True, wheelAccum := 0\<rparr>)),
      Some (fst (snd (nav_next e g)))),
     PreventDefault # snd (emit e (currentStepRef s + 1) (s\<lparr>wheelTimer := True, wheelAccum := 0\<rparr>)))"
proof -
  have eff: "snd (snd (nav_next e g)) = []"
    using assms(5) by (simp add: nav_next_def slideTo_false_effects)
  have pos: "0 < add64 (wheelAccum s) d" "THRESHOLD \<le> \<bar>add64 (wheelAccum s) d\<bar>"
    using assms(4) by (simp_all add: THRESHOLD_def)
  show ?thesis
    using assms(1-3,5) pos eff by (simp add: onWheel_def Let_def split_beta)
qed

lemma onWheel_portfolio_prev:
  assumes "elemAt steps (currentStepRef s) = Some step" and "subStep step = Portfolio"
    and "\<not> isAnimating s" and "add64 (wheelAccum s) d \<le> - THRESHOLD"
    and "fst (nav_prev e g) = False"
  shows "onWheel e d (s, Some g) =
    ((fst (emit e (currentStepRef s - 1) (s\<lparr>wheelTimer := True, wheelAccum := 0\<rparr>)),
      Some (fst (snd (nav_prev e g)))),
     PreventDefault # snd (emit e (currentStepRef s - 1) (s\<lparr>wheelTimer := True, wheelAccum := 0\<rparr>)))"
proof -
  have eff: "snd (snd (nav_prev e g)) = []"
    using assms(5) by (simp add: nav_prev_def slideTo_false_effects)
  have neg: "\<not> 0 < add64 (wheelAccum s) d" "THRESHOLD \<le> \<bar>add64 (wheelAccum s) d\<bar>"
    using assms(4) by (simp_all add: THRESHOLD_def)
  show ?thesis
    using assms(1-3,5) neg eff by (simp add: onWheel_def Let_def split_beta)
qed

text \<open>
  Claim C6. Gallery bubbling: on the gallery step with the orchestrator's lock free, a
  wheel event that brings the accumulator (its exact sum with the delta, or the rounded
  sum the handler stores) to +50 or more while next() reports false
  calls goToStep (current step + 1), and that call commits: the current step becomes
  the next top-level step and the lock is taken. Symmetrically, at -50 or less with
  prev() reporting false, goToStep (current step - 1) is called and commits. A resting
  gallery at its last card makes next() report false, and at its first card prev().
\<close>

theorem gallery_bubbling:
  assumes "elemAt steps (currentStepRef s) = Some step" and "subStep step = Portfolio"
    and "\<not> isAnimating s"
  shows "((THRESHOLD \<le> wheelAccum s + d \<or> THRESHOLD \<le> add64 (wheelAccum s) d)
            \<and> fst (nav_next e g) = False \<longrightarrow>
            intents (snd (onWheel e d (s, Some g))) = [currentStepRef s + 1]
            \<and> fst (fst (onWheel e d (s, Some g)))
                = fst (goToStep e (currentStepRef s + 1) (s\<lparr>wheelTimer := True, wheelAccum := 0\<rparr>))
            \<and> currentStepRef (fst (fst (onWheel e d (s, Some g)))) = currentStepRef s + 1
            \<and> isAnimating (fst (fst (onWheel e d (s, Some g)))))
       \<and> ((wheelAccum s + d \<le> - THRESHOLD \<or> add64 (wheelAccum s) d \<le> - THRESHOLD)
            \<and> fst (nav_prev e g) = False \<longrightarrow>
            intents (snd (onWheel e d (s, Some g))) = [currentStepRef s - 1]
            \<and> fst (fst (onWheel e d (s, Some g)))
                = fst (goToStep e (currentStepRef s - 1) (s\<lparr>wheelTimer := True, wheelAccum := 0\<rparr>))
            \<and> currentStepRef (fst (fst (onWheel e d (s, Some g)))) = currentStepRef s - 1
            \<and> isAnimating (fst (fst (onWheel e d (s, Some g)))))
       \<and> (currentCard g = int (length projects) - 1 \<and> \<not> isMoving g \<longrightarrow>
            fst (nav_next e g) = False)
       \<and> (currentCard g = 0 \<and> \<not> isMoving g \<longrightarrow> fst (nav_prev e g) = False)"
proof -
  let ?s0 = "s\<lparr>wheelTimer := True, wheelAccum := 0\<rparr>"
  have cur: "currentStepRef s = 12"
    using assms(1,2) by (rule portfolio_step_index)
  have free: "\<not> isAnimating ?s0"
    using assms(3) by simp
  have up: "clampStep (currentStepRef s + 1) \<noteq> currentStepRef ?s0"
    and down: "clampStep (currentStepRef s - 1) \<noteq> currentStepRef ?s0"
    by (simp_all add: cur clampStep_id)
  have a: "intents (snd (onWheel e d (s, Some g))) = [currentStepRef s + 1]
      \<and> fst (fst (onWheel e d (s, Some g))) = fst (goToStep e (currentStepRef s + 1) ?s0)
      \<and> currentStepRef (fst (fst (onWheel e d (s, Some g)))) = currentStepRef s + 1
      \<and> isAnimating (fst (fst (onWheel e d (s, Some g))))"
    if "THRESHOLD \<le> wheelAccum s + d \<or> THRESHOLD \<le> add64 (wheelAccum s) d"
      and rejected: "fst (nav_next e g) = False"
  proof -
    from that(1) have crossed: "THRESHOLD \<le> add64 (wheelAccum s) d"
      using round64_ge_threshold [of "wheelAccum s + d"]
      by (auto simp: THRESHOLD_def add64_def)
    show ?thesis
      using goToStep_commit(1,3) [OF free up, of e]
      by (simp add: onWheel_portfolio_next [OF assms crossed rejected] emit_intents emit_fst
          cur clampStep_id)
  qed
  have b: "intents (snd (onWheel e d (s, Some g))) = [currentStepRef s - 1]
      \<and> fst (fst (onWheel e d (s, Some g))) = fst (goToStep e (currentStepRef s - 1) ?s0)
      \<and> currentStepRef (fst (fst (onWheel e d (s, Some g)))) = currentStepRef s - 1
      \<and> isAnimating (fst (fst (onWheel e d (s, Some g))))"
    if "wheelAccum s + d \<le> - THRESHOLD \<or> add64 (wheelAccum s) d \<le> - THRESHOLD"
      and rejected: "fst (nav_prev e g) = False"
  proof -
    from that(1) have crossed: "add64 (wheelAccum s) d \<le> - THRESHOLD"
      using round64_le_threshold [of "wheelAccum s + d"]
      by (auto simp: THRESHOLD_def add64_def)
    show ?thesis
      using goToStep_commit(1,3) [OF free down, of e]
      by (simp add: onWheel_portfolio_prev [OF assms crossed rejected] emit_intents emit_fst
          cur clampStep_id)
  qed
  have c: "fst (nav_next e g) = False"
    if "currentCard g = int (length projects) - 1" and "\<not> isMoving g"
    using that by (simp add: nav_next_def slideTo_at_end)
  have d: "fst (nav_prev e g) = False" if "currentCard g = 0" and "\<not> isMoving g"
    using that by (simp add: nav_prev_def slideTo_at_end)
  from a b c d show ?thesis by blast
qed

theorem gallery_bubbling_witness:
  "elemAt steps (currentStepRef (initialNav\<lparr>currentStep := 12, currentStepRef := 12, portfolioVisible := True\<rparr>))
     = Some \<lparr>sectionIndex = 6, subStep = Portfolio\<rparr>
   \<and> fst (nav_next examplePage \<lparr>currentCard = 3, isMoving = False\<rparr>) = False
   \<and> intents (snd (onWheel examplePage 60
        (initialNav\<lparr>currentStep := 12, currentStepRef := 12, portfolioVisible := True\<rparr>,
         Some \<lparr>currentCard = 3, isMoving = False\<rparr>))) = [13]
   \<and> currentStepRef (fst (fst (onWheel examplePage 60
        (initialNav\<lparr>currentStep := 12, currentStepRef := 12, portfolioVisible := True\<rparr>,
         Some \<lparr>currentCard = 3, isMoving = False\<rparr>)))) = 13
   \<and> fst (nav_prev examplePage \<lparr>currentCard = 0, isMoving = False\<rparr>) = False
   \<and> currentStepRef (fst (fst (onWheel examplePage (- 60)
        (initialNav\<lparr>currentStep := 12, currentStepRef := 12, portfolioVisible := True\<rparr>,
         Some \<lparr>currentCard = 0, isMoving = False\<rparr>)))) = 11"
proof -
  let ?s = "initialNav\<lparr>currentStep := 12, currentStepRef := 12, portfolioVisible := True\<rparr>"
  have h1: "elemAt steps (currentStepRef ?s) = Some \<lparr>sectionIndex = 6, subStep = Portfolio\<rparr>"
    by (simp add: elemAt_def steps_eq)
  have h2: "subStep \<lparr>sectionIndex = 6, subStep = Portfolio\<rparr> = Portfolio"
    by simp
  have h3: "\<not> isAnimating ?s"
    by (simp add: initialNav_def)
  let ?last = "\<lparr>currentCard = 3, isMoving = False\<rparr>"
  let ?first = "\<lparr>currentCard = 0, isMoving = False\<rparr>"
  have up: "THRESHOLD \<le> wheelAccum ?s + 60" and down: "wheelAccum ?s + - 60 \<le> - THRESHOLD"
    by (simp_all add: initialNav_def THRESHOLD_def)
  have at_last: "currentCard ?last = int (length projects) - 1" "\<not> isMoving ?last"
    and at_first: "currentCard ?first = 0" "\<not> isMoving ?first"
    by (simp_all add: projects_def)
  have cur: "currentStepRef ?s + 1 = 13" "currentStepRef ?s - 1 = 11"
    by simp_all
  note adv = gallery_bubbling [OF h1 h2 h3, of 60 examplePage ?last, unfolded cur]
  note ret = gallery_bubbling [OF h1 h2 h3, of "- 60" examplePage ?first, unfolded cur]
  have n1: "fst (nav_next examplePage ?last) = False"
    using adv at_last by blast
  have n2: "fst (nav_prev examplePage ?first) = False"
    using ret at_first by blast
  from adv up n1 ret down n2 h1 show ?thesis by blast
qed

end
